theory Spec2Isabelle
  imports Complex_Main "HOL-Library.Log_Nat"
begin

section \<open>Shor's algorithm notebook: the classical part of the factoring cell\<close>

text \<open>
  The notebook's factoring cell samples a base, checks that it is co-prime to
  \<open>toFactor\<close>, runs the quantum subroutine on the simulator and post-processes the
  measured value \<open>y\<close> into a pair of candidate factors.  The simulator is an external
  library: the measured value is an input of the model.  Everything else of the cell
  is embedded below, statement by statement.  Python integers are \<open>int\<close>, a Python
  \<open>Fraction\<close> is a \<open>rat\<close> (always in lowest terms, with a positive denominator), a
  finite Python \<open>float\<close> is the \<open>rat\<close> it denotes, and a raised exception is the
  left summand of a result.
\<close>

datatype error = ValueError | ZeroDivisionError | OverflowError

definition bind_err :: "error + 'a \<Rightarrow> ('a \<Rightarrow> error + 'b) \<Rightarrow> error + 'b" where
  "bind_err m f = (case m of Inl e \<Rightarrow> Inl e | Inr v \<Rightarrow> f v)"

subsection \<open>\<open>fractions.Fraction\<close>\<close>

text \<open>The attributes \<open>numerator\<close> and \<open>denominator\<close> of a fraction.\<close>

definition numerator :: "rat \<Rightarrow> int" where
  "numerator x = fst (quotient_of x)"

definition denominator :: "rat \<Rightarrow> int" where
  "denominator x = snd (quotient_of x)"

text \<open>\<open>Fraction(p, q)\<close> of two integers.\<close>

definition Fraction2 :: "int \<Rightarrow> int \<Rightarrow> error + rat" where
  "Fraction2 p q = (if q = 0 then Inl ZeroDivisionError else Inr (Fract p q))"

text \<open>The loop of \<open>Fraction.limit_denominator\<close>:
  \<^verbatim>\<open>
    while True:
        a = n//d
        q2 = q0+a*q1
        if q2 > max_denominator:
            break
        p0, q0, p1, q1 = p1, q1, p0+a*p1, q2
        n, d = d, n-a*d
  \<close>
  It returns the state \<open>(p0, q0, p1, q1)\<close> at the \<open>break\<close>.\<close>

function cf_loop :: "int \<Rightarrow> int \<Rightarrow> int \<Rightarrow> int \<Rightarrow> int \<Rightarrow> int \<Rightarrow> int \<Rightarrow> error + (int \<times> int \<times> int \<times> int)" where
  "cf_loop max_denominator p0 q0 p1 q1 n d =
     (if d = 0 then Inl ZeroDivisionError
      else let a = n div d; q2 = q0 + a * q1
           in if q2 > max_denominator then Inr (p0, q0, p1, q1)
              else cf_loop max_denominator p1 q1 (p0 + a * p1) q2 d (n - a * d))"
  by pat_completeness auto
termination
proof (relation "measure (\<lambda>(m, p0, q0, p1, q1, n, d). nat \<bar>d\<bar>)")
  show "wf (measure (\<lambda>(m, p0, q0, p1, q1, n, d). nat \<bar>d\<bar>))"
    by simp
next
  fix max_denominator p0 q0 p1 q1 n d :: int and a q2 :: int
  assume d: "d \<noteq> 0" and a: "a = n div d"
  have "n - a * d = n mod d"
    using a by (simp add: minus_div_mult_eq_mod)
  moreover have "\<bar>n mod d\<bar> < \<bar>d\<bar>"
    using d by (rule abs_mod_less)
  ultimately show "((max_denominator, p1, q1, p0 + a * p1, q2, d, n - a * d),
          (max_denominator, p0, q0, p1, q1, n, d))
         \<in> measure (\<lambda>(m, p0, q0, p1, q1, n, d). nat \<bar>d\<bar>)"
    by simp
qed

definition limit_denominator :: "rat \<Rightarrow> int \<Rightarrow> error + rat" where
  "limit_denominator self max_denominator =
     (if max_denominator < 1 then Inl ValueError
      else if denominator self \<le> max_denominator then Inr self
      else bind_err (cf_loop max_denominator 0 1 1 0 (numerator self) (denominator self))
        (\<lambda>(p0, q0, p1, q1).
           if q1 = 0 then Inl ZeroDivisionError
           else let k = (max_denominator - q0) div q1
                in bind_err (Fraction2 (p0 + k * p1) (q0 + k * q1)) (\<lambda>bound1.
                   bind_err (Fraction2 p1 q1) (\<lambda>bound2.
                     if \<bar>bound2 - self\<bar> \<le> \<bar>bound1 - self\<bar> then Inr bound2 else Inr bound1))))"

subsection \<open>Python floats: IEEE binary64 with round-half-even\<close>

definition round_half_even :: "rat \<Rightarrow> int" where
  "round_half_even x =
     (let f = \<lfloor>x\<rfloor>; d = x - of_int f
      in if d < 1 / 2 then f else if 1 / 2 < d then f + 1
         else if even f then f else f + 1)"

text \<open>The binary exponent of a non-zero value: \<open>\<lfloor>log\<^sub>2 \<bar>x\<bar>\<rfloor>\<close>, from the bit lengths
  of numerator and denominator.\<close>

definition float_exp :: "rat \<Rightarrow> int" where
  "float_exp x =
     (let e = bitlen (numerator \<bar>x\<bar>) - bitlen (denominator \<bar>x\<bar>)
      in if \<bar>x\<bar> < 2 powi e then e - 1 else e)"

text \<open>Doubles have 53 significant bits: near \<open>x\<close> they are the multiples of the
  quantum \<open>2\<^bsup>e - 52\<^esup>\<close>, which is never below \<open>2\<^bsup>-1074\<^esup>\<close> (the subnormals).\<close>

definition quantum :: "rat \<Rightarrow> rat" where
  "quantum x = 2 powi (max (float_exp x - 52) (- 1074))"

text \<open>The multiple of the quantum nearest to \<open>x\<close>, ties to the even significand.\<close>

definition nearest :: "rat \<Rightarrow> rat" where
  "nearest x = of_int (round_half_even (x / quantum x)) * quantum x"

text \<open>Rounding an exact value to a double; \<open>None\<close> when the rounded value does not
  fit (it would be \<open>2\<^bsup>1024\<^esup>\<close> or more).\<close>

definition round_double :: "rat \<Rightarrow> rat option" where
  "round_double x =
     (if x = 0 then Some 0
      else if 2 powi 1024 \<le> \<bar>nearest x\<bar> then None
      else Some (nearest x))"

text \<open>\<open>float(n)\<close> of an integer, as every mixed operation \<open>float op int\<close> does it
  implicitly: correctly rounded, \<open>OverflowError\<close> when too large.\<close>

definition float_of_int :: "int \<Rightarrow> error + rat" where
  "float_of_int n = (case round_double (of_int n) of None \<Rightarrow> Inl OverflowError | Some v \<Rightarrow> Inr v)"

text \<open>Product and quotient of two floats.  Python yields \<open>inf\<close> when the result is
  too large, and the \<open>int()\<close> that this program applies to every such result raises
  \<open>OverflowError\<close> on \<open>inf\<close>; the model raises it at the operation.\<close>

definition float_mul :: "rat \<Rightarrow> rat \<Rightarrow> error + rat" where
  "float_mul x y = (case round_double (x * y) of None \<Rightarrow> Inl OverflowError | Some v \<Rightarrow> Inr v)"

definition float_div :: "rat \<Rightarrow> rat \<Rightarrow> error + rat" where
  "float_div x y =
     (if y = 0 then Inl ZeroDivisionError
      else case round_double (x / y) of None \<Rightarrow> Inl OverflowError | Some v \<Rightarrow> Inr v)"

text \<open>\<open>n / d\<close> of two integers: the correctly rounded quotient.\<close>

definition int_truediv :: "int \<Rightarrow> int \<Rightarrow> error + rat" where
  "int_truediv n d =
     (if d = 0 then Inl ZeroDivisionError
      else case round_double (of_int n / of_int d) of None \<Rightarrow> Inl OverflowError | Some v \<Rightarrow> Inr v)"

text \<open>\<open>int(x)\<close> of a finite float truncates towards zero.\<close>

definition int_of_float :: "rat \<Rightarrow> int" where
  "int_of_float x = (if 0 \<le> x then \<lfloor>x\<rfloor> else \<lceil>x\<rceil>)"

subsection \<open>The built-in three-argument \<open>pow\<close>\<close>

text \<open>\<open>pow(b, e, m)\<close>: \<open>ValueError\<close> for a zero modulus; the result has the sign of the
  modulus, as Python's \<open>%\<close> and HOL's \<open>mod\<close> on \<open>int\<close> both have it.  For a negative
  exponent the base is replaced by an inverse modulo \<open>m\<close>, and \<open>ValueError\<close> is raised
  when there is none.\<close>

definition pow_mod :: "int \<Rightarrow> int \<Rightarrow> int \<Rightarrow> error + int" where
  "pow_mod b e m =
     (if m = 0 then Inl ValueError
      else if 0 \<le> e then Inr (b ^ nat e mod m)
      else case find (\<lambda>x. (b * x) mod \<bar>m\<bar> = 1 mod \<bar>m\<bar>) (map int [0..<nat \<bar>m\<bar>]) of
             None \<Rightarrow> Inl ValueError
           | Some inv_base \<Rightarrow> Inr (inv_base ^ nat (- e) mod m))"

subsection \<open>The factoring cell\<close>

text \<open>What the cell prints: the factor found by the co-primality check, a verified
  factor pair, or the failure report with the candidate pair.\<close>

datatype outcome =
    NonRelativePrime int
  | FactorsFound int int
  | Failed int int

text \<open>\<^verbatim>\<open>base = int(random.random() * toFactor)\<close>, with \<open>u\<close> the value drawn by
  \<open>random.random()\<close>.\<close>

definition sample_base :: "rat \<Rightarrow> int \<Rightarrow> error + int" where
  "sample_base u toFactor =
     bind_err (float_of_int toFactor) (\<lambda>n.
     bind_err (float_mul u n) (\<lambda>p. Inr (int_of_float p)))"

text \<open>\<^verbatim>\<open>qubitCount = math.ceil(math.log2(toFactor))\<close>.  \<open>math.log2\<close> is the
  platform's library function: it raises \<open>ValueError\<close> for an integer that is not
  positive and otherwise returns a double, which is an input \<open>l\<close> of the model, as the
  random draw and the measured value are.  \<open>math.ceil\<close> of a finite float is exact.\<close>

definition qubitCount :: "int \<Rightarrow> rat \<Rightarrow> error + int" where
  "qubitCount toFactor l = (if toFactor \<le> 0 then Inl ValueError else Inr \<lceil>l\<rceil>)"

text \<open>\<^verbatim>\<open>r = Fraction(y).limit_denominator(toFactor - 1).denominator\<close>\<close>

definition period_candidate :: "int \<Rightarrow> int \<Rightarrow> error + int" where
  "period_candidate toFactor y =
     bind_err (limit_denominator (of_int y) (toFactor - 1)) (\<lambda>f. Inr (denominator f))"

text \<open>\<^verbatim>\<open>
    if r % 2 != 0:
        r *= 2
  \<close>\<close>

definition adjust_period :: "int \<Rightarrow> int" where
  "adjust_period r = (if r mod 2 \<noteq> 0 then r * 2 else r)"

text \<open>\<^verbatim>\<open>
    apowrhalf = pow(base, r >> 1, toFactor)
    f1 = gcd(apowrhalf + 1, toFactor)
    f2 = gcd(apowrhalf - 1, toFactor)
  \<close>
  for the period candidate \<open>r\<close> as the continued-fraction step left it.\<close>

definition candidate_pair :: "int \<Rightarrow> int \<Rightarrow> int \<Rightarrow> error + int \<times> int" where
  "candidate_pair toFactor base r =
     bind_err (pow_mod base (drop_bit 1 (adjust_period r)) toFactor) (\<lambda>apowrhalf.
       Inr (gcd (apowrhalf + 1) toFactor, gcd (apowrhalf - 1) toFactor))"

text \<open>The condition of the correction pass, with Python's short-circuit \<open>and\<close>:
  \<^verbatim>\<open>(not f1 * f2 == toFactor) and f1 * f2 > 1
      and int(1.0 * toFactor / (f1 * f2)) * f1 * f2 == toFactor\<close>\<close>

definition correction_test :: "int \<Rightarrow> int \<Rightarrow> int \<Rightarrow> error + bool" where
  "correction_test toFactor f1 f2 =
     (if f1 * f2 = toFactor then Inr False
      else if \<not> 1 < f1 * f2 then Inr False
      else bind_err (float_of_int toFactor) (\<lambda>n.
           bind_err (float_mul 1 n) (\<lambda>x.
           bind_err (float_of_int (f1 * f2)) (\<lambda>d.
           bind_err (float_div x d) (\<lambda>q.
             Inr (int_of_float q * f1 * f2 = toFactor))))))"

text \<open>\<^verbatim>\<open>
    if <condition>:
        f1, f2 = f1 * f2, int(toFactor / (f1 * f2))
  \<close>\<close>

definition correction :: "int \<Rightarrow> int \<times> int \<Rightarrow> error + int \<times> int" where
  "correction toFactor p =
     (case p of (f1, f2) \<Rightarrow>
        bind_err (correction_test toFactor f1 f2) (\<lambda>c.
          if c then bind_err (int_truediv toFactor (f1 * f2)) (\<lambda>q.
                      Inr (f1 * f2, int_of_float q))
          else Inr (f1, f2)))"

text \<open>\<^verbatim>\<open>
    if f1 * f2 == toFactor and f1 > 1 and f2 > 1:
        print("Factors found : {} * {} = {}".format(f1, f2, toFactor))
    else:
        print("Failed: Found {} and {}".format(f1, f2))
  \<close>\<close>

definition verdict :: "int \<Rightarrow> int \<times> int \<Rightarrow> outcome" where
  "verdict toFactor p =
     (case p of (f1, f2) \<Rightarrow>
        if f1 * f2 = toFactor \<and> 1 < f1 \<and> 1 < f2 then FactorsFound f1 f2 else Failed f1 f2)"

text \<open>The resolver: the cell from the continued-fraction step to the report, for the
  number to factor, the base and the measured value.\<close>

definition resolve :: "int \<Rightarrow> int \<Rightarrow> int \<Rightarrow> error + outcome" where
  "resolve toFactor base y =
     bind_err (period_candidate toFactor y) (\<lambda>r.
     bind_err (candidate_pair toFactor base r) (\<lambda>p.
     bind_err (correction toFactor p) (\<lambda>p'.
       Inr (verdict toFactor p'))))"

text \<open>The whole cell, for the value \<open>u\<close> drawn by the random generator, the double \<open>l\<close>
  that \<open>math.log2(toFactor)\<close> would return and the value \<open>y\<close> that the simulator would
  measure:
  \<^verbatim>\<open>
    base = int(random.random() * toFactor)
    if not gcd(base, toFactor) == 1:
        print("Chose non-relative prime, (without need for quantum computing):")
        print("Factor: {}".format(gcd(base, toFactor)))
    else:
        qubitCount = math.ceil(math.log2(toFactor))
        ...                                   (the simulator measures y)
        ...                                   (the resolver)
  \<close>\<close>

definition shor_cell :: "rat \<Rightarrow> rat \<Rightarrow> int \<Rightarrow> int \<Rightarrow> error + outcome" where
  "shor_cell u l y toFactor =
     bind_err (sample_base u toFactor) (\<lambda>base.
       if \<not> gcd base toFactor = 1 then Inr (NonRelativePrime (gcd base toFactor))
       else bind_err (qubitCount toFactor l) (\<lambda>n. resolve toFactor base y))"

subsection \<open>The period candidate as the specification words it\<close>

text \<open>The specification's number of phase-estimation qubits, \<open>n = ceil(log2(N))\<close>: the
  exact ceiling of the logarithm, which for a positive \<open>N\<close> is the bit length of
  \<open>N - 1\<close>.\<close>

definition spec_qubit_count :: "int \<Rightarrow> error + nat" where
  "spec_qubit_count toFactor =
     (if toFactor \<le> 0 then Inl ValueError else Inr (nat (bitlen (toFactor - 1))))"

text \<open>The specification's step 1: approximate \<open>y / 2\<^sup>n\<close>, with \<open>n\<close> that number of qubits,
  by a fraction with denominator at most \<open>toFactor - 1\<close>, and take the denominator.  The
  approximation is \<open>limit_denominator\<close>, the continued-fraction truncation above.\<close>

definition spec_period_candidate :: "int \<Rightarrow> int \<Rightarrow> error + int" where
  "spec_period_candidate toFactor y =
     bind_err (spec_qubit_count toFactor) (\<lambda>n.
     bind_err (Fraction2 y (2 ^ n)) (\<lambda>phase.
     bind_err (limit_denominator phase (toFactor - 1)) (\<lambda>f. Inr (denominator f))))"

section \<open>Properties of the float model\<close>

subsection \<open>Rounding to the nearest integer\<close>

lemma round_half_even_of_int [simp]: "round_half_even (of_int k) = k"
  by (simp add: round_half_even_def)

lemma round_half_even_err: "\<bar>of_int (round_half_even x) - x\<bar> \<le> 1 / 2"
proof -
  have "of_int \<lfloor>x\<rfloor> \<le> x" "x < of_int \<lfloor>x\<rfloor> + 1"
    by linarith+
  then show ?thesis
    by (auto simp: round_half_even_def Let_def)
qed

lemma round_half_even_ge: "of_int n \<le> x \<Longrightarrow> n \<le> round_half_even x"
proof -
  assume "of_int n \<le> x"
  then have "n \<le> \<lfloor>x\<rfloor>" by (simp add: le_floor_iff)
  then show ?thesis
    by (auto simp: round_half_even_def Let_def)
qed

lemma round_half_even_le: "x \<le> of_int n \<Longrightarrow> round_half_even x \<le> n"
proof -
  assume le: "x \<le> of_int n"
  show ?thesis
  proof (cases "x = of_int n")
    case True
    then show ?thesis by simp
  next
    case False
    with le have "x < of_int n" by simp
    then have "\<lfloor>x\<rfloor> < n" by (simp add: floor_less_iff)
    then show ?thesis
      by (auto simp: round_half_even_def Let_def)
  qed
qed

lemma round_half_even_below_half:
  assumes "z < of_int k - 1 / 2"
  shows "round_half_even z \<le> k - 1"
proof -
  have "of_int (round_half_even z) \<le> z + 1 / 2"
    using round_half_even_err [of z] by linarith
  with assms have "(of_int (round_half_even z) :: rat) < of_int k" by linarith
  then have "round_half_even z < k" by (simp only: of_int_less_iff)
  then show ?thesis by simp
qed

subsection \<open>The binary exponent\<close>

lemma abs_rat_quotient: "\<bar>x\<bar> = of_int (numerator \<bar>x\<bar>) / of_int (denominator \<bar>x\<bar>)"
proof -
  obtain a b where ab: "quotient_of \<bar>x\<bar> = (a, b)" by (cases "quotient_of \<bar>x\<bar>")
  then show ?thesis
    by (simp add: numerator_def denominator_def quotient_of_div)
qed

lemma denominator_pos: "0 < denominator x"
  by (simp add: denominator_def quotient_of_denom_pos')

lemma numerator_abs_pos: "x \<noteq> 0 \<Longrightarrow> 0 < numerator \<bar>x\<bar>"
proof -
  assume "x \<noteq> 0"
  then have "0 < \<bar>x\<bar>" by simp
  then have "0 < of_int (numerator \<bar>x\<bar>) / (of_int (denominator \<bar>x\<bar>) :: rat)"
    using abs_rat_quotient [of x] by simp
  then show ?thesis
    using denominator_pos [of "\<bar>x\<bar>"] by (simp add: zero_less_divide_iff)
qed

lemma bitlen_bounds_rat:
  assumes "0 < a"
  shows "(2::rat) powi (bitlen a - 1) \<le> of_int a" and "of_int a < (2::rat) powi (bitlen a)"
proof -
  from assms have b1: "1 \<le> bitlen a"
    using bitlen_eq_zero_iff [of a] bitlen_nonneg [of a] by linarith
  from bitlen_bounds [OF assms] have lo: "2 ^ nat (bitlen a - 1) \<le> a" and hi: "a < 2 ^ nat (bitlen a)"
    by simp_all
  have "(2::rat) powi (bitlen a - 1) = 2 ^ nat (bitlen a - 1)"
    using b1 by (simp add: power_int_def)
  also have "\<dots> = of_int (2 ^ nat (bitlen a - 1))" by simp
  also have "\<dots> \<le> of_int a" using lo by (simp only: of_int_le_iff)
  finally show "(2::rat) powi (bitlen a - 1) \<le> of_int a" .
  have "of_int a < (of_int (2 ^ nat (bitlen a)) :: rat)" using hi by (simp only: of_int_less_iff)
  also have "\<dots> = 2 ^ nat (bitlen a)" by simp
  also have "\<dots> = (2::rat) powi (bitlen a)"
    using b1 by (simp add: power_int_def)
  finally show "of_int a < (2::rat) powi (bitlen a)" .
qed

lemma float_exp_bounds:
  assumes "x \<noteq> 0"
  shows "2 powi (float_exp x) \<le> \<bar>x\<bar>" and "\<bar>x\<bar> < 2 powi (float_exp x + 1)"
proof -
  define a where "a = numerator \<bar>x\<bar>"
  define b where "b = denominator \<bar>x\<bar>"
  define e where "e = bitlen a - bitlen b"
  have a: "0 < a" using assms by (simp add: a_def numerator_abs_pos)
  have b: "0 < b" by (simp add: b_def denominator_pos)
  have x: "\<bar>x\<bar> = of_int a / of_int b"
    unfolding a_def b_def by (rule abs_rat_quotient)
  have fe: "float_exp x = (if \<bar>x\<bar> < 2 powi e then e - 1 else e)"
    by (simp add: float_exp_def Let_def a_def b_def e_def)
  note A = bitlen_bounds_rat [OF a] and B = bitlen_bounds_rat [OF b]
  have bpos: "(0::rat) < of_int b" using b by simp
  have lower: "2 powi (e - 1) \<le> \<bar>x\<bar>"
  proof -
    have "(2::rat) powi (e - 1) = 2 powi (bitlen a - 1) / 2 powi (bitlen b)"
      by (simp add: e_def power_int_diff)
    also have "\<dots> \<le> of_int a / 2 powi (bitlen b)"
      using A(1) by (simp add: divide_right_mono)
    also have "\<dots> \<le> of_int a / of_int b"
      using B(2) a bpos by (simp add: frac_le)
    finally show ?thesis by (simp add: x)
  qed
  have upper: "\<bar>x\<bar> < 2 powi (e + 1)"
  proof -
    have p: "(0::rat) < 2 powi (bitlen b - 1)" by simp
    have "of_int a / of_int b < (2::rat) powi (bitlen a) / of_int b"
      using A(2) bpos by (simp add: divide_strict_right_mono)
    also have "\<dots> \<le> 2 powi (bitlen a) / 2 powi (bitlen b - 1)"
      using B(1) p by (simp add: frac_le)
    also have "\<dots> = 2 powi (e + 1)"
      by (simp add: e_def power_int_diff power_int_add)
    finally show ?thesis by (simp add: x)
  qed
  show "2 powi (float_exp x) \<le> \<bar>x\<bar>"
    using lower by (simp add: fe)
  show "\<bar>x\<bar> < 2 powi (float_exp x + 1)"
    using upper by (simp add: fe)
qed

lemma two_powi_less_cancel:
  assumes "(2::rat) powi m < 2 powi n"
  shows "m < n"
proof (rule ccontr)
  assume "\<not> m < n"
  then have "n \<le> m" by simp
  then have "(2::rat) powi n \<le> 2 powi m"
    by (rule power_int_increasing) simp
  with assms show False by simp
qed

lemma float_exp_unique:
  assumes "2 powi e \<le> \<bar>x\<bar>" and "\<bar>x\<bar> < 2 powi (e + 1)"
  shows "float_exp x = e"
proof -
  have "(0::rat) < 2 powi e" by simp
  with assms(1) have "0 < \<bar>x\<bar>" by linarith
  then have nz: "x \<noteq> 0" by simp
  from float_exp_bounds [OF nz] assms
  have lt: "(2::rat) powi e < 2 powi (float_exp x + 1)" "(2::rat) powi (float_exp x) < 2 powi (e + 1)"
    by linarith+
  have "e < float_exp x + 1"
    using lt(1) by (rule two_powi_less_cancel)
  moreover have "float_exp x < e + 1"
    using lt(2) by (rule two_powi_less_cancel)
  ultimately show ?thesis by simp
qed

lemma float_exp_le:
  assumes "x \<noteq> 0" and "\<bar>x\<bar> \<le> 2 powi E"
  shows "float_exp x \<le> E"
proof -
  have "2 powi (float_exp x) \<le> \<bar>x\<bar>" using assms(1) by (rule float_exp_bounds)
  also have "\<dots> < 2 powi (E + 1)"
    using assms(2) power_int_strict_increasing [of E "E + 1" "2::rat"] by simp
  finally have "float_exp x < E + 1" by (rule two_powi_less_cancel)
  then show ?thesis by simp
qed

lemma float_exp_ge:
  assumes "2 powi E \<le> \<bar>x\<bar>"
  shows "E \<le> float_exp x"
proof -
  have "(0::rat) < 2 powi E" by simp
  with assms have "0 < \<bar>x\<bar>" by linarith
  then have "x \<noteq> 0" by simp
  then have "\<bar>x\<bar> < 2 powi (float_exp x + 1)" by (rule float_exp_bounds)
  with assms have "(2::rat) powi E < 2 powi (float_exp x + 1)" by simp
  then have "E < float_exp x + 1" by (rule two_powi_less_cancel)
  then show ?thesis by simp
qed

lemma two_powi_int: "0 \<le> n \<Longrightarrow> (2::rat) powi n = of_int (2 ^ nat n)"
  by (simp add: power_int_def)

subsection \<open>The nearest double\<close>

lemma quantum_pos: "0 < quantum x"
  by (simp add: quantum_def)

text \<open>The powers of two around a number as multiples of its quantum
  \<open>q = 2\<^bsup>E - 52\<^esup>\<close>.\<close>

lemma quantum_scale:
  fixes E :: int
  defines "q \<equiv> (2::rat) powi (E - 52)"
  shows "2 powi E = 2 ^ 52 * q" and "2 powi (E + 1) = 2 ^ 53 * q"
    and "2 powi (E - 1) = 2 ^ 51 * q" and "2 powi (E - 53) = q / 2"
proof -
  have "(2::rat) powi E = 2 powi (52 + (E - 52))"
    by (rule arg_cong [where f = "\<lambda>k. 2 powi k"]) simp
  also have "\<dots> = 2 powi 52 * 2 powi (E - 52)" by (rule power_int_add) simp
  finally show "2 powi E = 2 ^ 52 * q" by (simp add: q_def)
  have "(2::rat) powi (E + 1) = 2 powi (53 + (E - 52))"
    by (rule arg_cong [where f = "\<lambda>k. 2 powi k"]) simp
  also have "\<dots> = 2 powi 53 * 2 powi (E - 52)" by (rule power_int_add) simp
  finally show "2 powi (E + 1) = 2 ^ 53 * q" by (simp add: q_def)
  have "(2::rat) powi (E - 1) = 2 powi (51 + (E - 52))"
    by (rule arg_cong [where f = "\<lambda>k. 2 powi k"]) simp
  also have "\<dots> = 2 powi 51 * 2 powi (E - 52)" by (rule power_int_add) simp
  finally show "2 powi (E - 1) = 2 ^ 51 * q" by (simp add: q_def)
  have "(2::rat) powi (E - 53) = 2 powi ((E - 52) - 1)"
    by (rule arg_cong [where f = "\<lambda>k. 2 powi k"]) simp
  also have "\<dots> = 2 powi (E - 52) / 2 powi 1" by (rule power_int_diff) simp
  finally show "2 powi (E - 53) = q / 2" by (simp add: q_def)
qed

lemma quantum_normal:
  assumes "2 powi E \<le> x" and "x < 2 powi (E + 1)" and "- 1022 \<le> E"
  shows "quantum x = 2 powi (E - 52)"
proof -
  have "(0::rat) < 2 powi E" by simp
  with assms(1) have "0 < x" by linarith
  then have "\<bar>x\<bar> = x" by simp
  with assms(1,2) have "float_exp x = E" by (intro float_exp_unique) simp_all
  moreover have "max (E - 52) (- 1074) = E - 52" using assms(3) by simp
  ultimately show ?thesis by (simp add: quantum_def)
qed

lemma nearest_zero [simp]: "nearest 0 = 0"
  by (simp add: nearest_def round_half_even_def)

lemma nearest_err: "\<bar>nearest x - x\<bar> \<le> quantum x / 2"
proof -
  let ?q = "quantum x"
  let ?m = "of_int (round_half_even (x / ?q)) :: rat"
  have q: "0 < ?q" by (rule quantum_pos)
  have "?m * ?q - x = (?m - x / ?q) * ?q"
    using q by (simp add: left_diff_distrib)
  then have "\<bar>?m * ?q - x\<bar> = \<bar>?m - x / ?q\<bar> * ?q"
    using q by (simp add: abs_mult)
  also have "\<dots> \<le> (1 / 2) * ?q"
    using round_half_even_err [of "x / ?q"] q by (intro mult_right_mono) simp_all
  finally show ?thesis by (simp add: nearest_def)
qed

lemma nearest_nonneg: "0 \<le> x \<Longrightarrow> 0 \<le> nearest x"
proof -
  assume "0 \<le> x"
  then have "of_int 0 \<le> x / quantum x"
    using quantum_pos [of x] by simp
  then have "0 \<le> round_half_even (x / quantum x)"
    by (rule round_half_even_ge)
  then show ?thesis
    using quantum_pos [of x] by (simp add: nearest_def)
qed

lemma nearest_le_two_powi:
  assumes "\<bar>x\<bar> \<le> 2 powi E" and "- 1074 \<le> E"
  shows "\<bar>nearest x\<bar> \<le> 2 powi E"
proof (cases "x = 0")
  case True
  then show ?thesis by simp
next
  case False
  define m where "m = max (float_exp x - 52) (- 1074)"
  have q: "quantum x = 2 powi m" by (simp add: quantum_def m_def)
  have "float_exp x \<le> E" using False assms(1) by (rule float_exp_le)
  then have mE: "0 \<le> E - m" using assms(2) by (simp add: m_def)
  have pw: "(2::rat) powi E / 2 powi m = of_int (2 ^ nat (E - m))"
    using mE by (simp add: power_int_diff [symmetric] two_powi_int)
  have "\<bar>x / quantum x\<bar> \<le> 2 powi E / 2 powi m"
    using assms(1) by (simp add: q divide_right_mono)
  then have ab: "\<bar>x / quantum x\<bar> \<le> of_int (2 ^ nat (E - m))"
    unfolding pw .
  have b1: "x / quantum x \<le> of_int (2 ^ nat (E - m))"
    using ab by linarith
  have "- (of_int (2 ^ nat (E - m)) :: rat) \<le> x / quantum x"
    using ab by linarith
  then have b2: "of_int (- (2 ^ nat (E - m))) \<le> x / quantum x"
    by (simp only: of_int_minus)
  have "round_half_even (x / quantum x) \<le> 2 ^ nat (E - m)"
    using b1 by (rule round_half_even_le)
  moreover have "- (2 ^ nat (E - m)) \<le> round_half_even (x / quantum x)"
    using b2 by (rule round_half_even_ge)
  ultimately have "\<bar>round_half_even (x / quantum x)\<bar> \<le> 2 ^ nat (E - m)"
    by simp
  then have "\<bar>of_int (round_half_even (x / quantum x)) :: rat\<bar> \<le> of_int (2 ^ nat (E - m))"
    by (simp only: of_int_abs [symmetric] of_int_le_iff)
  then have "\<bar>of_int (round_half_even (x / quantum x)) :: rat\<bar> * 2 powi m \<le> (2 powi E / 2 powi m) * 2 powi m"
    unfolding pw by (intro mult_right_mono) simp_all
  then show ?thesis
    by (simp add: nearest_def q abs_mult)
qed

lemma nearest_ge_two_powi:
  assumes "2 powi E \<le> x" and "- 1074 \<le> E"
  shows "2 powi E \<le> nearest x"
proof -
  define m where "m = max (float_exp x - 52) (- 1074)"
  define e where "e = float_exp x"
  have q: "quantum x = 2 powi m" by (simp add: quantum_def m_def)
  have xpos: "0 < x" using assms(1) by (rule less_le_trans [rotated]) simp
  then have ax: "\<bar>x\<bar> = x" and nz: "x \<noteq> 0" by simp_all
  have Ee: "E \<le> e" unfolding e_def using assms(1) ax by (intro float_exp_ge) simp
  then have me: "0 \<le> e - m" using assms(2) by (simp add: m_def e_def)
  have pw: "(2::rat) powi e / 2 powi m = of_int (2 ^ nat (e - m))"
    using me by (simp add: power_int_diff [symmetric] two_powi_int)
  have "2 powi e \<le> x" using float_exp_bounds(1) [OF nz] ax by (simp add: e_def)
  then have "2 powi e / 2 powi m \<le> x / quantum x"
    by (simp add: q divide_right_mono)
  then have "of_int (2 ^ nat (e - m)) \<le> x / quantum x"
    unfolding pw .
  then have "2 ^ nat (e - m) \<le> round_half_even (x / quantum x)"
    by (rule round_half_even_ge)
  then have "(of_int (2 ^ nat (e - m)) :: rat) \<le> of_int (round_half_even (x / quantum x))"
    by (simp only: of_int_le_iff)
  then have "((2::rat) powi e / 2 powi m) * 2 powi m \<le> of_int (round_half_even (x / quantum x)) * 2 powi m"
    unfolding pw by (intro mult_right_mono) simp_all
  then have "2 powi e \<le> nearest x"
    by (simp add: nearest_def q)
  moreover have "(2::rat) powi E \<le> 2 powi e"
    using Ee by (intro power_int_increasing) simp_all
  ultimately show ?thesis by simp
qed

text \<open>The product of a double below 1 and the double nearest to \<open>n\<close> rounds to a double
  below \<open>n\<close>.\<close>

lemma nearest_product_below:
  fixes n :: rat
  assumes n: "1 \<le> n" and u: "0 \<le> u" "u \<le> 1 - 1 / 2 ^ 53"
  shows "nearest (u * nearest n) < n"
proof -
  define E where "E = float_exp n"
  define q :: rat where "q = 2 powi (E - 52)"
  define m where "m = round_half_even (n / q)"
  define F where "F = nearest n"
  define x where "x = u * F"
  note sc = quantum_scale [of E, folded q_def]
  have qpos: "0 < q" by (simp add: q_def)
  have nz: "n \<noteq> 0" and an: "\<bar>n\<bar> = n" using n by simp_all
  have lo: "2 powi E \<le> n" and hi: "n < 2 powi (E + 1)"
    using float_exp_bounds [OF nz] by (simp_all add: E_def an)
  have E0: "0 \<le> E"
  proof -
    have "(2::rat) powi 0 \<le> \<bar>n\<bar>" using n by simp
    then show ?thesis unfolding E_def by (rule float_exp_ge)
  qed
  have qn: "quantum n = q"
    unfolding q_def using lo hi E0 by (intro quantum_normal) simp_all
  have F: "F = of_int m * q" by (simp add: F_def nearest_def qn m_def)
  have "of_int (2 ^ 52) \<le> n / q"
    using lo qpos by (simp add: sc pos_le_divide_eq)
  then have m_lo: "2 ^ 52 \<le> m" unfolding m_def by (rule round_half_even_ge)
  have "n / q \<le> of_int (2 ^ 53)"
    using hi qpos by (simp add: sc pos_divide_le_eq)
  then have m_hi: "m \<le> 2 ^ 53" unfolding m_def by (rule round_half_even_le)
  have "\<bar>nearest n - n\<bar> \<le> q / 2"
    using nearest_err [of n] by (simp only: qn)
  then have "nearest n - q / 2 \<le> n" by linarith
  then have Fn: "F - q / 2 \<le> n" by (simp only: F_def)
  have x0: "0 \<le> x"
  proof -
    have "0 \<le> F" unfolding F_def using n by (intro nearest_nonneg) simp
    with u(1) show ?thesis by (simp add: x_def)
  qed
  have Fpos: "0 < F"
  proof -
    have "(0::rat) < of_int m" using m_lo by simp
    with qpos show ?thesis by (simp add: F)
  qed
  have xle: "x \<le> F - F / 2 ^ 53"
  proof -
    have "u * F \<le> (1 - 1 / 2 ^ 53) * F" using u(2) Fpos by (intro mult_right_mono) simp_all
    then show ?thesis by (simp add: x_def left_diff_distrib)
  qed
  have "nearest x < n"
  proof (cases "m = 2 ^ 52")
    case True
    then have FE: "F = 2 ^ 52 * q" by (simp add: F)
    have xb: "x \<le> (2 ^ 53 - 1) * (q / 2)"
      using xle by (simp add: FE algebra_simps)
    have "nearest x \<le> (2 ^ 53 - 1) * (q / 2)"
    proof (cases "x \<le> 2 powi (E - 1)")
      case True
      with x0 have "\<bar>x\<bar> \<le> 2 powi (E - 1)" by simp
      then have "\<bar>nearest x\<bar> \<le> 2 powi (E - 1)"
        using E0 by (intro nearest_le_two_powi) simp_all
      then have "nearest x \<le> 2 ^ 51 * q" by (simp add: sc)
      also have "\<dots> \<le> (2 ^ 53 - 1) * (q / 2)" using qpos by simp
      finally show ?thesis .
    next
      case False
      then have xl: "2 powi (E - 1) \<le> x" by simp
      have xh: "x < 2 powi (E - 1 + 1)"
        using xb qpos by (simp add: sc)
      have "quantum x = 2 powi (E - 1 - 52)"
        using xl xh E0 by (intro quantum_normal) simp_all
      then have qx: "quantum x = q / 2" by (simp add: sc)
      have "x / (q / 2) \<le> of_int (2 ^ 53 - 1)"
        using xb qpos by (simp add: pos_divide_le_eq)
      then have "round_half_even (x / (q / 2)) \<le> 2 ^ 53 - 1"
        by (rule round_half_even_le)
      then have "(of_int (round_half_even (x / (q / 2))) :: rat) \<le> of_int (2 ^ 53 - 1)"
        by (simp only: of_int_le_iff)
      then have "of_int (round_half_even (x / (q / 2))) * (q / 2) \<le> of_int (2 ^ 53 - 1) * (q / 2)"
        using qpos by (intro mult_right_mono) simp_all
      then show ?thesis by (simp add: nearest_def qx)
    qed
    also have "\<dots> < 2 ^ 52 * q" using qpos by simp
    also have "\<dots> \<le> n" using lo by (simp add: sc)
    finally show ?thesis .
  next
    case False
    with m_lo have m1: "2 ^ 52 + 1 \<le> m" by simp
    then have "(of_int (2 ^ 52 + 1) :: rat) \<le> of_int m" by (simp only: of_int_le_iff)
    then have FE: "(2 ^ 52 + 1) * q \<le> F"
      using qpos by (simp add: F)
    have "q / 2 < F / 2 ^ 53"
    proof -
      have "2 ^ 52 * q < (2 ^ 52 + 1) * q" using qpos by simp
      with FE have "2 ^ 52 * q < F" by simp
      then show ?thesis by simp
    qed
    with xle have xlt: "x < F - q / 2" by simp
    have "nearest x \<le> F - q"
    proof (cases "x \<le> 2 powi E")
      case True
      with x0 have "\<bar>x\<bar> \<le> 2 powi E" by simp
      then have "\<bar>nearest x\<bar> \<le> 2 powi E"
        using E0 by (intro nearest_le_two_powi) simp_all
      then have "nearest x \<le> 2 ^ 52 * q" by (simp add: sc)
      also have "\<dots> \<le> F - q" using FE by (simp add: algebra_simps)
      finally show ?thesis .
    next
      case False
      then have xl: "2 powi E \<le> x" by simp
      have "F \<le> 2 ^ 53 * q"
      proof -
        have "(of_int m :: rat) \<le> of_int (2 ^ 53)" using m_hi by (simp only: of_int_le_iff)
        then show ?thesis using qpos by (simp add: F)
      qed
      with xlt qpos have xh: "x < 2 powi (E + 1)" by (simp add: sc)
      have qx: "quantum x = q"
        unfolding q_def using xl xh E0 by (intro quantum_normal) simp_all
      have "x < (of_int m - 1 / 2) * q"
        using xlt by (simp add: F algebra_simps)
      then have "x / q < of_int m - 1 / 2"
        by (simp only: pos_divide_less_eq [OF qpos])
      then have "round_half_even (x / q) \<le> m - 1"
        by (rule round_half_even_below_half)
      then have "(of_int (round_half_even (x / q)) :: rat) \<le> of_int (m - 1)"
        by (simp only: of_int_le_iff)
      then have "of_int (round_half_even (x / q)) * q \<le> of_int (m - 1) * q"
        using qpos by (intro mult_right_mono) simp_all
      then show ?thesis by (simp add: nearest_def qx F algebra_simps)
    qed
    also have "\<dots> < F - q / 2" using qpos by simp
    also have "\<dots> \<le> n" by (rule Fn)
    finally show ?thesis .
  qed
  then show ?thesis by (simp add: x_def F_def)
qed

subsection \<open>Rounding to a double\<close>

lemma round_double_unfold:
  "x \<noteq> 0 \<Longrightarrow> round_double x = (if 2 powi 1024 \<le> \<bar>nearest x\<bar> then None else Some (nearest x))"
  by (simp add: round_double_def)

text \<open>Every integer up to \<open>2\<^sup>5\<^sup>3\<close> in absolute value is a double.\<close>

lemma round_double_int_exact:
  assumes "\<bar>k\<bar> \<le> 2 ^ 53"
  shows "round_double (of_int k) = Some (of_int k)"
proof (cases "k = 0")
  case True
  then show ?thesis by (simp add: round_double_def)
next
  case False
  let ?x = "of_int k :: rat"
  have nz: "?x \<noteq> 0" using False by simp
  have le: "\<bar>?x\<bar> \<le> 2 powi 53"
  proof -
    have "\<bar>?x\<bar> = of_int \<bar>k\<bar>" by simp
    also have "\<dots> \<le> of_int (2 ^ 53)" using assms by (simp only: of_int_le_iff)
    also have "\<dots> = (2::rat) powi 53" by simp
    finally show ?thesis .
  qed
  have e53: "float_exp ?x \<le> 53" using nz le by (rule float_exp_le)
  have "\<exists>z. ?x / quantum ?x = of_int z"
  proof (cases "float_exp ?x = 53")
    case True
    with float_exp_bounds(1) [OF nz] le have "\<bar>?x\<bar> = 2 powi 53" by simp
    then have "(of_int \<bar>k\<bar> :: rat) = of_int (2 ^ 53)" by simp
    then have "\<bar>k\<bar> = 2 ^ 53" by (simp only: of_int_eq_iff)
    then have "k = 2 ^ 53 \<or> k = - (2 ^ 53)" by linarith
    then have "k = 2 * (k div 2)" by auto
    then have "?x = 2 * of_int (k div 2)" by (metis of_int_mult of_int_numeral)
    moreover have "quantum ?x = 2" using True by (simp add: quantum_def)
    ultimately have "?x / quantum ?x = of_int (k div 2)" by simp
    then show ?thesis ..
  next
    case False
    with e53 have m: "max (float_exp ?x - 52) (- 1074) \<le> 0" by simp
    define j where "j = nat (- max (float_exp ?x - 52) (- 1074))"
    have "quantum ?x = 1 / 2 ^ j"
      using m by (simp add: quantum_def j_def power_int_def field_simps)
    then have "?x / quantum ?x = of_int (k * 2 ^ j)" by simp
    then show ?thesis ..
  qed
  then obtain z where z: "?x / quantum ?x = of_int z" ..
  have "nearest ?x = of_int z * quantum ?x"
    by (simp only: nearest_def z round_half_even_of_int)
  also have "\<dots> = (?x / quantum ?x) * quantum ?x" by (simp only: z)
  also have "\<dots> = ?x" using quantum_pos [of ?x] by simp
  finally have val: "nearest ?x = ?x" .
  have "\<bar>?x\<bar> < 2 powi 1024"
  proof -
    note le
    also have "(2::rat) powi 53 < 2 powi 1024" by (rule power_int_strict_increasing) simp_all
    finally show ?thesis .
  qed
  then show ?thesis
    using nz by (simp add: round_double_unfold val)
qed

lemma round_double_bounded:
  assumes "\<bar>x\<bar> \<le> 2 powi E" and "- 1074 \<le> E" and "E < 1024"
  shows "round_double x = Some (nearest x)"
proof (cases "x = 0")
  case True
  then show ?thesis by (simp add: round_double_def)
next
  case False
  have "\<bar>nearest x\<bar> \<le> 2 powi E" using assms(1,2) by (rule nearest_le_two_powi)
  also have "(2::rat) powi E < 2 powi 1024"
    using assms(3) by (intro power_int_strict_increasing) simp_all
  finally show ?thesis using False by (simp add: round_double_unfold)
qed

lemma round_double_overflow:
  assumes "2 powi 1024 \<le> x"
  shows "round_double x = None"
proof -
  have "(0::rat) < 2 powi 1024" by simp
  with assms have "0 < x" by linarith
  then have nz: "x \<noteq> 0" by simp
  have "2 powi 1024 \<le> nearest x" using assms by (rule nearest_ge_two_powi) simp
  then have "2 powi 1024 \<le> \<bar>nearest x\<bar>" by simp
  then show ?thesis using nz by (simp add: round_double_unfold)
qed

section \<open>Properties of the Python operations\<close>

subsection \<open>Results and conversions\<close>

lemma bind_err_Inr [simp]: "bind_err (Inr v) f = f v"
  by (simp add: bind_err_def)

lemma bind_err_Inl [simp]: "bind_err (Inl e) f = Inl e"
  by (simp add: bind_err_def)

lemma bind_err_eq_Inr: "bind_err m f = Inr w \<longleftrightarrow> (\<exists>v. m = Inr v \<and> f v = Inr w)"
  by (cases m) simp_all

lemma int_of_float_of_int [simp]: "int_of_float (of_int k) = k"
  by (simp add: int_of_float_def)

lemma int_of_float_zero [simp]: "int_of_float 0 = 0"
  by (simp add: int_of_float_def)

lemma float_of_int_exact: "\<bar>k\<bar> \<le> 2 ^ 53 \<Longrightarrow> float_of_int k = Inr (of_int k)"
  by (simp add: float_of_int_def round_double_int_exact)

lemma float_mul_one_exact: "\<bar>k\<bar> \<le> 2 ^ 53 \<Longrightarrow> float_mul 1 (of_int k) = Inr (of_int k)"
  by (simp add: float_mul_def round_double_int_exact)

lemma of_int_abs_le_two_powi:
  assumes "\<bar>k\<bar> \<le> 2 ^ n"
  shows "\<bar>of_int k :: rat\<bar> \<le> 2 powi (int n)"
proof -
  have "\<bar>of_int k :: rat\<bar> = of_int \<bar>k\<bar>" by simp
  also have "\<dots> \<le> of_int (2 ^ n)" using assms by (simp only: of_int_le_iff)
  also have "\<dots> = (2::rat) powi (int n)" by simp
  finally show ?thesis .
qed

text \<open>Conversion of an integer of moderate size: defined, and at least 1 for a positive integer.\<close>

lemma float_of_int_defined:
  assumes "\<bar>k\<bar> \<le> 2 ^ 1023"
  shows "float_of_int k = Inr (nearest (of_int k))" and "\<bar>nearest (of_int k)\<bar> \<le> 2 powi 1023"
proof -
  have b: "\<bar>of_int k :: rat\<bar> \<le> 2 powi 1023"
    using of_int_abs_le_two_powi [OF assms] by simp
  then have "round_double (of_int k) = Some (nearest (of_int k))"
    by (rule round_double_bounded) simp_all
  then show "float_of_int k = Inr (nearest (of_int k))"
    by (simp add: float_of_int_def)
  show "\<bar>nearest (of_int k)\<bar> \<le> 2 powi 1023"
    using b by (rule nearest_le_two_powi) simp
qed

lemma nearest_of_int_ge_one:
  assumes "1 \<le> k"
  shows "1 \<le> nearest (of_int k)"
proof -
  have "(2::rat) powi 0 \<le> of_int k" using assms by simp
  then have "(2::rat) powi 0 \<le> nearest (of_int k)" by (rule nearest_ge_two_powi) simp
  then show ?thesis by simp
qed

text \<open>\<open>2\<^sup>1\<^sup>0\<^sup>2\<^sup>4\<close> is too large for a double.\<close>

lemma float_of_int_overflow: "float_of_int (2 ^ 1024) = Inl OverflowError"
proof -
  have "(2::rat) powi 1024 \<le> of_int (2 ^ 1024)" by simp
  then have "round_double (of_int (2 ^ 1024)) = None" by (rule round_double_overflow)
  then show ?thesis by (simp add: float_of_int_def)
qed

text \<open>The quotient of a float by a float that is at least 1.\<close>

lemma float_div_defined:
  assumes "\<bar>x\<bar> \<le> 2 powi 1023" and "1 \<le> d"
  shows "float_div x d = Inr (nearest (x / d))"
proof -
  have "\<bar>x / d\<bar> = \<bar>x\<bar> / d" using assms(2) by simp
  also have "\<dots> \<le> \<bar>x\<bar> / 1" using assms(2) by (intro divide_left_mono) simp_all
  finally have "\<bar>x / d\<bar> \<le> 2 powi 1023" using assms(1) by simp
  then have "round_double (x / d) = Some (nearest (x / d))"
    by (rule round_double_bounded) simp_all
  then show ?thesis using assms(2) by (simp add: float_div_def)
qed

lemma float_mul_one_defined:
  assumes "\<bar>x\<bar> \<le> 2 powi 1023"
  shows "float_mul 1 x = Inr (nearest x)" and "\<bar>nearest x\<bar> \<le> 2 powi 1023"
proof -
  have "round_double x = Some (nearest x)"
    using assms by (rule round_double_bounded) simp_all
  then show "float_mul 1 x = Inr (nearest x)" by (simp add: float_mul_def)
  show "\<bar>nearest x\<bar> \<le> 2 powi 1023"
    using assms by (rule nearest_le_two_powi) simp
qed

lemma int_truediv_defined:
  assumes "\<bar>n\<bar> \<le> 2 ^ 1023" and "1 \<le> d"
  shows "int_truediv n d = Inr (nearest (of_int n / of_int d))"
proof -
  have b: "\<bar>of_int n :: rat\<bar> \<le> 2 powi 1023"
    using of_int_abs_le_two_powi [OF assms(1)] by simp
  have d: "(1::rat) \<le> of_int d" using assms(2) by simp
  have "\<bar>of_int n / of_int d :: rat\<bar> = \<bar>of_int n\<bar> / of_int d" using d by simp
  also have "\<dots> \<le> \<bar>of_int n\<bar> / 1" using d by (intro divide_left_mono) simp_all
  finally have "\<bar>of_int n / of_int d :: rat\<bar> \<le> 2 powi 1023" using b by simp
  then have "round_double (of_int n / of_int d) = Some (nearest (of_int n / of_int d))"
    by (rule round_double_bounded) simp_all
  then show ?thesis using assms(2) by (simp add: int_truediv_def)
qed

subsection \<open>The period candidate and the candidate pair\<close>

lemma denominator_of_int [simp]: "denominator (of_int y) = 1"
  by (simp add: denominator_def quotient_of_int)

lemma period_candidate_integer: "2 \<le> toFactor \<Longrightarrow> period_candidate toFactor y = Inr 1"
  by (simp add: period_candidate_def limit_denominator_def)

lemma adjust_period_one: "adjust_period 1 = 2"
  by (simp add: adjust_period_def)

lemma adjust_period_eq: "adjust_period r = (if even r then r else 2 * r)"
  by (simp add: adjust_period_def even_iff_mod_2_eq_zero)

lemma candidate_pair_one:
  "toFactor \<noteq> 0 \<Longrightarrow>
   candidate_pair toFactor base 1 =
     Inr (gcd (base mod toFactor + 1) toFactor, gcd (base mod toFactor - 1) toFactor)"
  by (simp add: candidate_pair_def adjust_period_def pow_mod_def drop_bit_eq_div)

text \<open>Two gcds with \<open>toFactor\<close>, of numbers two apart, have a product of at most
  twice \<open>toFactor\<close>.\<close>

lemma gcd_pair_product:
  fixes x N :: int
  assumes "0 < N"
  shows "1 \<le> gcd (x + 1) N * gcd (x - 1) N" and "gcd (x + 1) N * gcd (x - 1) N \<le> 2 * N"
proof -
  let ?f1 = "gcd (x + 1) N" and ?f2 = "gcd (x - 1) N"
  have f1: "0 < ?f1" and f2: "0 < ?f2" using assms by (simp_all add: gcd_pos_int)
  then have "0 < ?f1 * ?f2" by (rule mult_pos_pos)
  then show "1 \<le> ?f1 * ?f2" by simp
  have d1: "gcd ?f1 ?f2 dvd x + 1"
    by (rule dvd_trans [OF gcd_dvd1 gcd_dvd1])
  have d2: "gcd ?f1 ?f2 dvd x - 1"
    by (rule dvd_trans [OF gcd_dvd2 gcd_dvd1])
  have "gcd ?f1 ?f2 dvd (x + 1) - (x - 1)"
    using d1 d2 by (rule dvd_diff)
  then have "gcd ?f1 ?f2 dvd 2" by simp
  then have g: "gcd ?f1 ?f2 \<le> 2" by (intro zdvd_imp_le) simp_all
  have "lcm ?f1 ?f2 dvd N" by (rule lcm_least) simp_all
  then have l: "lcm ?f1 ?f2 \<le> N" using assms by (rule zdvd_imp_le)
  have l0: "0 \<le> lcm ?f1 ?f2" by simp
  have "?f1 * ?f2 = gcd ?f1 ?f2 * lcm ?f1 ?f2"
    using f1 f2 prod_gcd_lcm_int [of ?f1 ?f2] by (simp only: abs_of_pos)
  also have "\<dots> \<le> 2 * N"
    using g l l0 by (intro mult_mono) simp_all
  finally show "?f1 * ?f2 \<le> 2 * N" .
qed

subsection \<open>The correction pass\<close>

text \<open>The condition of the correction pass never raises while the numbers fit a double.\<close>

lemma correction_test_defined:
  assumes "\<bar>toFactor\<bar> \<le> 2 ^ 1023" and "f1 * f2 \<le> 2 ^ 1023"
  shows "\<exists>c. correction_test toFactor f1 f2 = Inr c \<and> (c \<longrightarrow> f1 * f2 \<noteq> toFactor \<and> 1 < f1 * f2 \<and> f1 * f2 dvd toFactor)"
proof (cases "f1 * f2 \<noteq> toFactor \<and> 1 < f1 * f2")
  case False
  then show ?thesis by (auto simp: correction_test_def)
next
  case True
  define n where "n = nearest (of_int toFactor)"
  define x where "x = nearest n"
  define d where "d = nearest (of_int (f1 * f2))"
  define q where "q = nearest (x / d)"
  have n: "float_of_int toFactor = Inr n" "\<bar>n\<bar> \<le> 2 powi 1023"
    unfolding n_def using assms(1) by (rule float_of_int_defined)+
  have x: "float_mul 1 n = Inr x" "\<bar>x\<bar> \<le> 2 powi 1023"
    unfolding x_def using n(2) by (rule float_mul_one_defined)+
  have "\<bar>f1 * f2\<bar> \<le> 2 ^ 1023" using True assms(2) by simp
  then have d: "float_of_int (f1 * f2) = Inr d"
    unfolding d_def by (rule float_of_int_defined)
  have d1: "1 \<le> d"
    unfolding d_def using True by (intro nearest_of_int_ge_one) simp
  have q: "float_div x d = Inr q"
    unfolding q_def using x(2) d1 by (rule float_div_defined)
  have "correction_test toFactor f1 f2 = Inr (int_of_float q * f1 * f2 = toFactor)"
    using True by (simp add: correction_test_def n x d q)
  moreover have "f1 * f2 dvd toFactor" if "int_of_float q * f1 * f2 = toFactor"
  proof -
    have "toFactor = f1 * f2 * int_of_float q" using that by (simp add: mult_ac)
    then show ?thesis by (rule dvdI)
  qed
  ultimately show ?thesis using True by auto
qed

lemma abs_div_bound:
  fixes n p :: int
  assumes "p dvd n" and "\<bar>n\<bar> \<le> b"
  shows "\<bar>n div p\<bar> \<le> b"
proof -
  from assms(1) obtain k where k: "n = p * k" ..
  show ?thesis
  proof (cases "p = 0")
    case True
    then show ?thesis using assms(2) by simp
  next
    case False
    then have "n div p = k" using k by simp
    moreover have "\<bar>k\<bar> \<le> \<bar>n\<bar>"
    proof -
      have "1 \<le> \<bar>p\<bar>" using False by simp
      then have "1 * \<bar>k\<bar> \<le> \<bar>p\<bar> * \<bar>k\<bar>" by (intro mult_right_mono) simp_all
      then show ?thesis by (simp add: k abs_mult)
    qed
    ultimately show ?thesis using assms(2) by simp
  qed
qed

lemma exact_quotient:
  fixes n p :: int
  assumes "p dvd n" and "p \<noteq> 0"
  shows "(of_int n / of_int p :: rat) = of_int (n div p)"
proof -
  from assms(1) obtain k where k: "n = p * k" ..
  then show ?thesis using assms(2) by simp
qed

text \<open>Up to \<open>2\<^sup>5\<^sup>3\<close> the condition is the divisibility test it is meant to be.\<close>

lemma correction_test_exact:
  assumes N: "\<bar>toFactor\<bar> \<le> 2 ^ 53" and p: "f1 * f2 \<le> 2 ^ 1023"
  shows "correction_test toFactor f1 f2 = Inr (f1 * f2 \<noteq> toFactor \<and> 1 < f1 * f2 \<and> f1 * f2 dvd toFactor)"
proof (cases "f1 * f2 \<noteq> toFactor \<and> 1 < f1 * f2 \<and> f1 * f2 dvd toFactor")
  case False
  have "\<bar>toFactor\<bar> \<le> 2 ^ 1023"
  proof -
    note N
    also have "(2::int) ^ 53 \<le> 2 ^ 1023" by (rule power_increasing) simp_all
    finally show ?thesis .
  qed
  from correction_test_defined [OF this p] False show ?thesis by auto
next
  case True
  then have ne: "f1 * f2 \<noteq> toFactor" and gt: "1 < f1 * f2" and dv: "f1 * f2 dvd toFactor"
    by simp_all
  define k where "k = toFactor div (f1 * f2)"
  have kp: "k * (f1 * f2) = toFactor" using dv by (simp add: k_def)
  have kb: "\<bar>k\<bar> \<le> 2 ^ 53" unfolding k_def using dv N by (rule abs_div_bound)
  show ?thesis
  proof (cases "toFactor = 0")
    case True
    have z: "float_of_int 0 = Inr 0" "float_mul 1 0 = Inr 0"
      by (simp_all add: float_of_int_def float_mul_def round_double_def)
    have "\<bar>f1 * f2\<bar> \<le> 2 ^ 1023" using gt p by simp
    then have d: "float_of_int (f1 * f2) = Inr (nearest (of_int (f1 * f2)))"
      by (rule float_of_int_defined)
    have d1: "nearest (of_int (f1 * f2)) \<noteq> 0"
      using nearest_of_int_ge_one [of "f1 * f2"] gt by simp
    have "float_div 0 (nearest (of_int (f1 * f2))) = Inr 0"
      using d1 by (simp add: float_div_def round_double_def)
    then show ?thesis
      using True ne gt by (simp add: correction_test_def z d)
  next
    case False
    have "\<bar>f1 * f2\<bar> \<le> \<bar>toFactor\<bar>"
      using dv False by (simp add: dvd_imp_le_int)
    then have pb: "\<bar>f1 * f2\<bar> \<le> 2 ^ 53" using N by simp
    have pz: "f1 * f2 \<noteq> 0" using gt by linarith
    then have nz: "(of_int (f1 * f2) :: rat) \<noteq> 0" by (simp only: of_int_eq_0_iff) simp
    have quot: "(of_int toFactor / of_int (f1 * f2) :: rat) = of_int k"
      unfolding k_def using dv pz by (rule exact_quotient)
    have "float_div (of_int toFactor) (of_int (f1 * f2)) = Inr (of_int k)"
      using nz unfolding float_div_def quot by (simp add: round_double_int_exact [OF kb])
    then have "correction_test toFactor f1 f2 = Inr (k * f1 * f2 = toFactor)"
      using ne gt by (simp add: correction_test_def float_of_int_exact [OF N]
          float_mul_one_exact [OF N] float_of_int_exact [OF pb])
    then show ?thesis using kp True by (simp add: mult.assoc)
  qed
qed

lemma correction_exact:
  assumes N: "\<bar>toFactor\<bar> \<le> 2 ^ 53" and p: "f1 * f2 \<le> 2 ^ 1023"
  shows "correction toFactor (f1, f2) =
           Inr (if f1 * f2 \<noteq> toFactor \<and> 1 < f1 * f2 \<and> f1 * f2 dvd toFactor
                then (f1 * f2, toFactor div (f1 * f2)) else (f1, f2))"
proof -
  define c where "c \<longleftrightarrow> f1 * f2 \<noteq> toFactor \<and> 1 < f1 * f2 \<and> f1 * f2 dvd toFactor"
  have t: "correction_test toFactor f1 f2 = Inr c"
    unfolding c_def using N p by (rule correction_test_exact)
  have "correction toFactor (f1, f2) =
          Inr (if c then (f1 * f2, toFactor div (f1 * f2)) else (f1, f2))"
  proof (cases c)
    case False
    then show ?thesis by (simp add: correction_def t)
  next
    case True
    then have gt: "1 < f1 * f2" and dv: "f1 * f2 dvd toFactor" by (simp_all add: c_def)
    have kb: "\<bar>toFactor div (f1 * f2)\<bar> \<le> 2 ^ 53" using dv N by (rule abs_div_bound)
    have pz: "f1 * f2 \<noteq> 0" using gt by linarith
    have quot: "(of_int toFactor / of_int (f1 * f2) :: rat) = of_int (toFactor div (f1 * f2))"
      using dv pz by (rule exact_quotient)
    have "int_truediv toFactor (f1 * f2) = Inr (of_int (toFactor div (f1 * f2)))"
      by (simp only: int_truediv_def quot pz if_False round_double_int_exact [OF kb] option.case)
    then show ?thesis
      using True by (simp add: correction_def t)
  qed
  then show ?thesis unfolding c_def .
qed

lemma correction_defined:
  assumes N: "\<bar>toFactor\<bar> \<le> 2 ^ 1023" and p: "f1 * f2 \<le> 2 ^ 1023"
  shows "\<exists>p'. correction toFactor (f1, f2) = Inr p'"
proof -
  from correction_test_defined [OF N p] obtain c
    where c: "correction_test toFactor f1 f2 = Inr c" and c': "c \<longrightarrow> 1 < f1 * f2"
    by auto
  show ?thesis
  proof (cases c)
    case False
    then show ?thesis by (simp add: correction_def c)
  next
    case True
    with c' have "1 \<le> f1 * f2" by simp
    with N have "int_truediv toFactor (f1 * f2) = Inr (nearest (of_int toFactor / of_int (f1 * f2)))"
      by (rule int_truediv_defined)
    then show ?thesis using True by (simp add: correction_def c)
  qed
qed

lemma correction_test_raises:
  "float_of_int toFactor = Inl e \<Longrightarrow> f1 * f2 \<noteq> toFactor \<Longrightarrow> 1 < f1 * f2 \<Longrightarrow>
   correction_test toFactor f1 f2 = Inl e"
  by (simp add: correction_test_def)

subsection \<open>The resolver\<close>

lemma resolve_unfold:
  assumes "2 \<le> toFactor"
  shows "resolve toFactor base y =
           bind_err (correction toFactor
               (gcd (base mod toFactor + 1) toFactor, gcd (base mod toFactor - 1) toFactor))
             (\<lambda>p'. Inr (verdict toFactor p'))"
  using assms by (simp add: resolve_def period_candidate_integer candidate_pair_one)

lemma resolve_defined:
  assumes "2 \<le> toFactor" and "toFactor \<le> 2 ^ 1022"
  shows "\<exists>p p'. candidate_pair toFactor base 1 = Inr p \<and> correction toFactor p = Inr p'
           \<and> resolve toFactor base y = Inr (verdict toFactor p')"
proof -
  let ?f1 = "gcd (base mod toFactor + 1) toFactor" and ?f2 = "gcd (base mod toFactor - 1) toFactor"
  have N: "\<bar>toFactor\<bar> \<le> 2 ^ 1023"
  proof -
    have "\<bar>toFactor\<bar> \<le> 2 ^ 1022" using assms by simp
    also have "(2::int) ^ 1022 \<le> 2 ^ 1023" by (rule power_increasing) simp_all
    finally show ?thesis .
  qed
  have "?f1 * ?f2 \<le> 2 * toFactor" using assms(1) by (intro gcd_pair_product) simp
  also have "\<dots> \<le> 2 * 2 ^ 1022" using assms(2) by simp
  also have "\<dots> = (2::int) ^ 1023" by simp
  finally have p: "?f1 * ?f2 \<le> 2 ^ 1023" .
  have c: "candidate_pair toFactor base 1 = Inr (?f1, ?f2)"
    using assms(1) by (intro candidate_pair_one) simp
  from correction_defined [OF N p] obtain p' where p': "correction toFactor (?f1, ?f2) = Inr p'" ..
  then have "resolve toFactor base y = Inr (verdict toFactor p')"
    using assms(1) by (simp add: resolve_unfold)
  with c p' show ?thesis by blast
qed

lemma verdict_cases:
  "verdict toFactor (f1, f2) = FactorsFound f1 f2 \<and> f1 * f2 = toFactor \<and> 1 < f1 \<and> 1 < f2
   \<or> verdict toFactor (f1, f2) = Failed f1 f2 \<and> \<not> (f1 * f2 = toFactor \<and> 1 < f1 \<and> 1 < f2)"
  by (simp add: verdict_def)

lemma resolve_raises:
  "period_candidate toFactor y = Inr r \<Longrightarrow> candidate_pair toFactor base r = Inr (f1, f2) \<Longrightarrow>
   correction_test toFactor f1 f2 = Inl e \<Longrightarrow> resolve toFactor base y = Inl e"
  by (simp add: resolve_def correction_def)

subsection \<open>The sampled base\<close>

lemma sample_base_range:
  assumes N: "1 \<le> toFactor" "toFactor \<le> 2 ^ 1023" and u: "0 \<le> u" "u \<le> 1 - 1 / 2 ^ 53"
  shows "\<exists>a. sample_base u toFactor = Inr a \<and> 0 \<le> a \<and> a < toFactor"
proof -
  define F where "F = nearest (of_int toFactor)"
  define x where "x = u * F"
  have "\<bar>toFactor\<bar> \<le> 2 ^ 1023" using N by simp
  then have f: "float_of_int toFactor = Inr F" and Fb: "\<bar>F\<bar> \<le> 2 powi 1023"
    unfolding F_def by (rule float_of_int_defined)+
  have F1: "1 \<le> F" unfolding F_def using N(1) by (rule nearest_of_int_ge_one)
  have x0: "0 \<le> x" using u(1) F1 by (simp add: x_def)
  have "x \<le> 1 * F" unfolding x_def using u(2) F1 by (intro mult_right_mono) simp_all
  with x0 Fb F1 have "\<bar>x\<bar> \<le> 2 powi 1023" by simp
  then have "round_double x = Some (nearest x)"
    by (rule round_double_bounded) simp_all
  then have s: "sample_base u toFactor = Inr (int_of_float (nearest x))"
    by (simp add: sample_base_def f float_mul_def x_def)
  have n0: "0 \<le> nearest x" using x0 by (rule nearest_nonneg)
  have "(1::rat) \<le> of_int toFactor" using N(1) by simp
  then have nN: "nearest x < of_int toFactor"
    unfolding x_def F_def using u by (rule nearest_product_below)
  have "0 \<le> int_of_float (nearest x)" using n0 by (simp add: int_of_float_def)
  moreover have "int_of_float (nearest x) < toFactor"
    using n0 nN by (simp add: int_of_float_def floor_less_iff)
  ultimately show ?thesis using s by simp
qed

section \<open>Concrete runs\<close>

lemma floor_rat_numeral_div [simp]: "\<lfloor>(numeral a :: rat) / numeral b\<rfloor> = numeral a div numeral b"
  using floor_divide_of_int_eq [of "numeral a" "numeral b", where ?'a = rat] by simp

lemma candidate_pair_15_7: "candidate_pair 15 7 1 = Inr (1, 3)"
  by code_simp

lemma correction_15: "correction 15 (1, 3) = Inr (3, 5)"
proof -
  have "correction 15 (1, 3) =
      Inr (if (1::int) * 3 \<noteq> 15 \<and> 1 < (1::int) * 3 \<and> (1::int) * 3 dvd 15
           then (1 * 3, 15 div (1 * 3)) else (1, 3))"
    by (rule correction_exact) simp_all
  then show ?thesis by simp
qed

lemma resolve_15_7: "resolve 15 7 y = Inr (FactorsFound 3 5)"
  by (simp add: resolve_def period_candidate_integer candidate_pair_15_7 correction_15 verdict_def)

lemma spec_qubit_count_15: "spec_qubit_count 15 = Inr 4"
  by (simp add: spec_qubit_count_def compute_bitlen)

text \<open>The double nearest to \<open>log\<^sub>2 15\<close>, \<open>3.9068905956085187\<close>, gives the same count.\<close>

lemma qubitCount_15: "qubitCount 15 (4398767757639955 / 1125899906842624) = Inr 4"
proof -
  have "\<lceil>(4398767757639955 / 1125899906842624 :: rat)\<rceil> = 4"
    using ceiling_divide_eq_div [of 4398767757639955 1125899906842624, where ?'a = rat] by simp
  then show ?thesis by (simp add: qubitCount_def)
qed

lemma spec_period_candidate_15_4: "spec_period_candidate 15 4 = Inr 4"
proof -
  have "quotient_of (Fract 4 16) = (1, 4)"
    by (simp add: quotient_of_Fract Rat.normalize_def)
  then show ?thesis
    by (simp add: spec_period_candidate_def spec_qubit_count_15 Fraction2_def
        limit_denominator_def denominator_def)
qed

lemma spec_period_candidate_15_1: "spec_period_candidate 15 1 = Inr 14"
  by code_simp








lemma candidate_pair_2_1024: "candidate_pair (2 ^ 1024) 3 1 = Inr (4, 2)"
  by code_simp

lemma resolve_2_1024: "resolve (2 ^ 1024) 3 y = Inl OverflowError"
proof -
  have "period_candidate (2 ^ 1024) y = Inr 1"
    by (rule period_candidate_integer) simp
  moreover note candidate_pair_2_1024
  moreover have "correction_test (2 ^ 1024) 4 2 = Inl OverflowError"
    using float_of_int_overflow by (rule correction_test_raises) simp_all
  ultimately show ?thesis by (rule resolve_raises)
qed

text \<open>The draw \<open>1/32\<close> on 15 gives the base 0, as the draw \<open>1/32768\<close> on 16373 does; the
  draw \<open>3/16\<close> on 21 gives the base 3.\<close>

lemma sample_base_15: "sample_base (1 / 32) 15 = Inr 0"
proof -
  have n: "float_of_int 15 = Inr 15" using float_of_int_exact [of 15] by simp
  have e: "float_exp (15 / 32) = - 2" by (rule float_exp_unique; simp add: power_int_minus)
  have q: "quantum (15 / 32) = 1 / 18014398509481984"
    by (simp add: quantum_def e power_int_minus)
  have "nearest (15 / 32) = 15 / 32"
    by (simp add: nearest_def q round_half_even_def Let_def)
  then have "round_double (15 / 32) = Some (15 / 32)"
    by (simp add: round_double_def power_int_def)
  then show ?thesis
    by (simp add: sample_base_def float_mul_def int_of_float_def n)
qed

lemma sample_base_16373: "sample_base (1 / 32768) 16373 = Inr 0"
proof -
  have n: "float_of_int 16373 = Inr 16373" using float_of_int_exact [of 16373] by simp
  have e: "float_exp (16373 / 32768) = - 2" by (rule float_exp_unique; simp add: power_int_minus)
  have q: "quantum (16373 / 32768) = 1 / 18014398509481984"
    by (simp add: quantum_def e power_int_minus)
  have "nearest (16373 / 32768) = 16373 / 32768"
    by (simp add: nearest_def q round_half_even_def Let_def)
  then have "round_double (16373 / 32768) = Some (16373 / 32768)"
    by (simp add: round_double_def power_int_def)
  then show ?thesis
    by (simp add: sample_base_def float_mul_def int_of_float_def n)
qed

lemma sample_base_21: "sample_base (3 / 16) 21 = Inr 3"
proof -
  have n: "float_of_int 21 = Inr 21" using float_of_int_exact [of 21] by simp
  have e: "float_exp (63 / 16) = 1" by (rule float_exp_unique; simp)
  have q: "quantum (63 / 16) = 1 / 2251799813685248"
    by (simp add: quantum_def e power_int_minus)
  have "nearest (63 / 16) = 63 / 16"
    by (simp add: nearest_def q round_half_even_def Let_def)
  then have "round_double (63 / 16) = Some (63 / 16)"
    by (simp add: round_double_def power_int_def)
  then show ?thesis
    by (simp add: sample_base_def float_mul_def int_of_float_def n)
qed

section \<open>The claims\<close>

text \<open>C1.  The claim: for every number to factor of at least 2 and every measured value
  \<open>y\<close> below \<open>2\<^sup>n\<close>, the period candidate is the denominator of the best rational
  approximation of \<open>y / 2\<^sup>n\<close> with denominator at most \<open>toFactor - 1\<close>.  The cell applies
  \<open>limit_denominator\<close> to \<open>Fraction(y)\<close>, the integer itself: for 15 and the measured
  value 4 (four qubits) it computes 1, where the approximation of 4/16 has denominator 4;
  for the measured value 1 it computes 1, where the approximation of 1/16 is 1/14.\<close>

theorem period_candidate_skips_phase_scaling:
  "spec_qubit_count 15 = Inr 4
     \<and> period_candidate 15 4 = Inr 1 \<and> spec_period_candidate 15 4 = Inr 4
     \<and> period_candidate 15 1 = Inr 1 \<and> spec_period_candidate 15 1 = Inr 14"
  by (simp add: spec_qubit_count_15 period_candidate_integer spec_period_candidate_15_4
      spec_period_candidate_15_1)

text \<open>C2.  For a number to factor of at least 2 the result of the resolver is the same
  for any two measured values: the period candidate is always 1, doubled to 2, and the
  power is the base reduced modulo the number.  Neither the range of the measured values
  nor co-primality of the base is needed.\<close>

theorem resolve_ignores_measurement:
  assumes "2 \<le> toFactor"
  shows "resolve toFactor base y = resolve toFactor base y'
       \<and> period_candidate toFactor y = Inr 1
       \<and> adjust_period 1 = 2
       \<and> pow_mod base (drop_bit 1 (adjust_period 1)) toFactor = Inr (base mod toFactor)"
  using assms
  by (simp add: resolve_def period_candidate_integer adjust_period_one pow_mod_def drop_bit_eq_div)

theorem resolve_ignores_measurement_witness:
  "(2::int) \<le> 15 \<and> resolve 15 7 4 = resolve 15 7 11 \<and> period_candidate 15 4 = Inr 1"
  using resolve_ignores_measurement [of 15 7 4 11] by simp

text \<open>C3, as stated: the resolver terminates normally on every input with a number to
  factor of at least 2 and a co-prime base strictly between 1 and that number.  It does
  not: the correction pass converts the number to a float, and for \<open>2\<^sup>1\<^sup>0\<^sup>2\<^sup>4\<close> with base 3
  that conversion raises \<open>OverflowError\<close>.\<close>

theorem resolve_overflow_counterexample:
  "(2::int) \<le> 2 ^ 1024 \<and> (1::int) < 3 \<and> (3::int) < 2 ^ 1024 \<and> gcd (3::int) (2 ^ 1024) = 1
     \<and> resolve (2 ^ 1024) 3 0 = Inl OverflowError"
proof -
  have "gcd (3::int) 2 = 1" by code_simp
  then have c: "coprime (3::int) 2" by (simp only: coprime_iff_gcd_eq_1)
  have "coprime (3::int) (2 ^ 1024)"
    by (rule iffD2 [OF coprime_power_right_iff]) (rule disjI1, rule c)
  then have "gcd (3::int) (2 ^ 1024) = 1" by (simp only: coprime_iff_gcd_eq_1)
  with resolve_2_1024 [of 0] show ?thesis by simp
qed

text \<open>C3, amended: for every number to factor from 2 to \<open>2\<^sup>1\<^sup>0\<^sup>2\<^sup>2\<close>, every base and every
  measured value, the resolver raises nothing and reports either a verified factor pair
  or a failure with the candidate pair.\<close>

theorem resolve_total_in_float_range:
  assumes "2 \<le> toFactor" and "toFactor \<le> 2 ^ 1022"
  shows "\<exists>f1 f2. resolve toFactor base y = Inr (FactorsFound f1 f2)
                    \<and> f1 * f2 = toFactor \<and> 1 < f1 \<and> 1 < f2
               \<or> resolve toFactor base y = Inr (Failed f1 f2)"
proof -
  from resolve_defined [OF assms] obtain p
    where "resolve toFactor base y = Inr (verdict toFactor p)" by blast
  then show ?thesis
    using verdict_cases [of toFactor "fst p" "snd p"] by auto
qed

theorem resolve_total_in_float_range_witness:
  "(2::int) \<le> 15 \<and> (15::int) \<le> 2 ^ 1022
     \<and> (\<exists>f1 f2. resolve 15 7 4 = Inr (FactorsFound f1 f2) \<and> f1 * f2 = 15 \<and> 1 < f1 \<and> 1 < f2
            \<or> resolve 15 7 4 = Inr (Failed f1 f2))"
  using resolve_total_in_float_range [of 15 7 4] by simp

text \<open>C4.  Whenever the resolver returns, its report is about the pair left by the
  correction pass, and it is the success report exactly when that pair multiplies to the
  number to factor with both members above 1; otherwise it is the failure report with
  that pair.  So every pair reported as found is a nontrivial factorisation.\<close>

theorem resolve_success_iff:
  assumes "resolve toFactor base y = Inr out"
  shows "(\<exists>r p f1 f2. period_candidate toFactor y = Inr r \<and> candidate_pair toFactor base r = Inr p
            \<and> correction toFactor p = Inr (f1, f2)
            \<and> (out = FactorsFound f1 f2 \<or> out = Failed f1 f2)
            \<and> (out = FactorsFound f1 f2 \<longleftrightarrow> f1 * f2 = toFactor \<and> 1 < f1 \<and> 1 < f2))
       \<and> (\<forall>g1 g2. out = FactorsFound g1 g2 \<longrightarrow> g1 * g2 = toFactor \<and> 1 < g1 \<and> 1 < g2)"
proof -
  from assms obtain r p p' where r: "period_candidate toFactor y = Inr r"
    and p: "candidate_pair toFactor base r = Inr p"
    and p': "correction toFactor p = Inr p'"
    and out: "out = verdict toFactor p'"
    by (auto simp: resolve_def bind_err_eq_Inr)
  obtain f1 f2 where f: "p' = (f1, f2)" by (cases p')
  have v: "(out = FactorsFound f1 f2 \<or> out = Failed f1 f2)
         \<and> (out = FactorsFound f1 f2 \<longleftrightarrow> f1 * f2 = toFactor \<and> 1 < f1 \<and> 1 < f2)"
    by (simp add: out f verdict_def)
  then have "\<forall>g1 g2. out = FactorsFound g1 g2 \<longrightarrow> g1 * g2 = toFactor \<and> 1 < g1 \<and> 1 < g2"
    by auto
  with r p p' f v show ?thesis by blast
qed

theorem resolve_success_iff_witness:
  "resolve 15 7 4 = Inr (FactorsFound 3 5) \<and> (3::int) * 5 = 15 \<and> (1::int) < 3 \<and> (1::int) < 5"
  using resolve_success_iff [of 15 7 4 "FactorsFound 3 5"] resolve_15_7 [of 4] by simp

text \<open>C5.  For 15, base 7 and the measured value 4 on four qubits (the specification's
  count, and the cell's own from the double that \<open>math.log2(15)\<close> returns) the resolver
  reports the factors 3 and 5.\<close>

theorem known_factorization_15:
  "spec_qubit_count 15 = Inr 4
     \<and> qubitCount 15 (4398767757639955 / 1125899906842624) = Inr 4
     \<and> resolve 15 7 4 = Inr (FactorsFound 3 5)"
  by (simp only: spec_qubit_count_15 qubitCount_15 resolve_15_7 simp_thms)

text \<open>C6, as stated: on the measured value 0 the resolver returns a failure.  For 15
  and base 7 it reports the factors 3 and 5: the denominator of \<open>Fraction(0)\<close> is 1, not
  0, and the run is the one of every other measured value.\<close>

theorem resolve_zero_counterexample:
  "(2::int) \<le> 15 \<and> (1::int) < 7 \<and> (7::int) < 15 \<and> gcd (7::int) 15 = 1
     \<and> resolve 15 7 0 = Inr (FactorsFound 3 5)"
proof -
  have "gcd (7::int) 15 = 1" by code_simp
  then show ?thesis by (simp add: resolve_15_7)
qed

text \<open>C6, amended: for every number to factor from 2 to \<open>2\<^sup>1\<^sup>0\<^sup>2\<^sup>2\<close> and every base, the
  resolver on the measured value 0 raises nothing; its period candidate is 1, and it
  reports success or failure by its usual verdict on the corrected candidate pair.\<close>

theorem resolve_zero_measurement:
  assumes "2 \<le> toFactor" and "toFactor \<le> 2 ^ 1022"
  shows "period_candidate toFactor 0 = Inr 1
       \<and> (\<exists>p p'. candidate_pair toFactor base 1 = Inr p \<and> correction toFactor p = Inr p'
              \<and> resolve toFactor base 0 = Inr (verdict toFactor p'))"
proof
  show "period_candidate toFactor 0 = Inr 1"
    using assms(1) by (rule period_candidate_integer)
  show "\<exists>p p'. candidate_pair toFactor base 1 = Inr p \<and> correction toFactor p = Inr p'
           \<and> resolve toFactor base 0 = Inr (verdict toFactor p')"
    using assms by (rule resolve_defined)
qed

theorem resolve_zero_measurement_witness:
  "(2::int) \<le> 15 \<and> (15::int) \<le> 2 ^ 1022
     \<and> period_candidate 15 0 = Inr 1
     \<and> (\<exists>p p'. candidate_pair 15 7 1 = Inr p \<and> correction 15 p = Inr p'
            \<and> resolve 15 7 0 = Inr (verdict 15 p'))"
  using resolve_zero_measurement [of 15 7] by simp

text \<open>C7.  For a number to factor of at least 2 and a period candidate \<open>r\<close> of at least
  1, the pair before correction is \<open>(gcd (x + 1) toFactor, gcd (x - 1) toFactor)\<close> with
  \<open>x = base ^ (r' / 2) mod toFactor\<close>, where \<open>r'\<close> is \<open>r\<close> if even and \<open>2 r\<close> if odd.\<close>

theorem candidate_pair_spec:
  assumes "2 \<le> toFactor" and "1 \<le> r"
  shows "candidate_pair toFactor base r =
           Inr (gcd (base ^ nat ((if even r then r else 2 * r) div 2) mod toFactor + 1) toFactor,
                gcd (base ^ nat ((if even r then r else 2 * r) div 2) mod toFactor - 1) toFactor)"
proof -
  have "0 \<le> adjust_period r div 2"
    using assms(2) by (simp add: adjust_period_eq)
  then have "pow_mod base (drop_bit 1 (adjust_period r)) toFactor =
      Inr (base ^ nat (adjust_period r div 2) mod toFactor)"
    using assms(1) by (simp add: pow_mod_def drop_bit_eq_div)
  then show ?thesis
    by (simp add: candidate_pair_def adjust_period_eq)
qed

theorem candidate_pair_spec_witness:
  "(2::int) \<le> 15 \<and> (1::int) \<le> 3
     \<and> candidate_pair 15 7 3 = Inr (gcd (7 ^ 3 mod 15 + 1) 15, gcd (7 ^ 3 mod 15 - 1) 15)"
  using candidate_pair_spec [of 15 3 7] by simp




text \<open>C9.  The claim: for every sampled base that is not co-prime to the number to
  factor, the resolver is not run and the value that the co-primality check reports is a
  nontrivial factor.  For 21 and the draw \<open>3/16\<close> the base is 3 and the cell reports the
  factor 3.  For 15 and the draw \<open>1/32\<close> the base is 0, whose gcd with 15 is 15, and the cell
  reports 15 itself as the factor; so it does for the notebook's own 16373 and the draw
  \<open>1/32768\<close>.  The report at the end of the cell refuses such a pair: 15 and 1 multiply to
  15 and are reported as a failure.\<close>

theorem cell_reports_trivial_factor:
  "sample_base (3 / 16) 21 = Inr 3
     \<and> shor_cell (3 / 16) (4945309777129841 / 1125899906842624) 4 21 = Inr (NonRelativePrime 3)
     \<and> sample_base (1 / 32) 15 = Inr 0 \<and> gcd (0::int) 15 \<noteq> 1
     \<and> shor_cell (1 / 32) (4398767757639955 / 1125899906842624) 4 15 = Inr (NonRelativePrime 15)
     \<and> \<not> ((1::int) < 15 \<and> (15::int) < 15)
     \<and> verdict 15 (15, 1) = Failed 15 1
     \<and> sample_base (1 / 32768) 16373 = Inr 0
     \<and> shor_cell (1 / 32768) (7880753887904927 / 562949953421312) 4 16373
         = Inr (NonRelativePrime 16373)"
proof -
  have "gcd (3::int) 21 = 3" by code_simp
  then show ?thesis
    by (simp add: sample_base_21 sample_base_15 sample_base_16373 shor_cell_def verdict_def)
qed

text \<open>C10, as stated: for every number to factor of at least 2 and every draw, the
  sampled base \<open>int(u * toFactor)\<close> lies between 2 and \<open>toFactor - 1\<close>.  For 15 and the
  draw \<open>1/32\<close> it is 0; and for a number as large as \<open>2\<^sup>1\<^sup>0\<^sup>2\<^sup>4\<close> the product raises
  \<open>OverflowError\<close>.\<close>

theorem sample_base_below_two_counterexample:
  "(2::int) \<le> 15 \<and> (0::rat) \<le> 1 / 32 \<and> (1 / 32 :: rat) < 1
     \<and> sample_base (1 / 32) 15 = Inr 0 \<and> \<not> (2::int) \<le> 0
     \<and> sample_base (1 / 32) (2 ^ 1024) = Inl OverflowError"
proof -
  have "sample_base (1 / 32) (2 ^ 1024) = Inl OverflowError"
    by (simp only: sample_base_def float_of_int_overflow bind_err_Inl)
  then show ?thesis by (simp add: sample_base_15)
qed

text \<open>C10, amended: for every number to factor from 2 to \<open>2\<^sup>1\<^sup>0\<^sup>2\<^sup>3\<close> and every draw from
  0 to the largest double below 1, the sampled base is an integer between 0 and
  \<open>toFactor - 1\<close>.\<close>

theorem sample_base_in_range:
  assumes "2 \<le> toFactor" and "toFactor \<le> 2 ^ 1023" and "0 \<le> u" and "u \<le> 1 - 1 / 2 ^ 53"
  shows "\<exists>base. sample_base u toFactor = Inr base \<and> 0 \<le> base \<and> base \<le> toFactor - 1"
proof -
  have "1 \<le> toFactor" using assms(1) by simp
  from sample_base_range [OF this assms(2-4)] show ?thesis by auto
qed

theorem sample_base_in_range_witness:
  "(2::int) \<le> 21 \<and> (21::int) \<le> 2 ^ 1023 \<and> (0::rat) \<le> 3 / 16 \<and> (3 / 16 :: rat) \<le> 1 - 1 / 2 ^ 53
     \<and> (\<exists>base. sample_base (3 / 16) 21 = Inr base \<and> 0 \<le> base \<and> base \<le> 21 - 1)"
  using sample_base_in_range [of 21 "3 / 16"] by simp

end
